theory Spec2Isabelle
  imports Main
begin

section \<open>picolog: the subscriber registry and the dispatcher\<close>

text \<open>
  A shallow embedding of \<^verbatim>\<open>src/picolog.h\<close> and \<^verbatim>\<open>src/picolog.c\<close>. The two
  file-level statics \<^verbatim>\<open>s_subscribers\<close> and \<^verbatim>\<open>s_message\<close> become fields of a state
  record that every operation takes and returns. The loops over the table are index
  loops, as in the C code, with the early \<^verbatim>\<open>return\<close> as a branch of the recursion.
  Modelled are \<^verbatim>\<open>picolog_init\<close>, \<^verbatim>\<open>picolog_subscribe\<close>,
  \<^verbatim>\<open>picolog_unsubscribe\<close> and \<^verbatim>\<open>picolog_message\<close>. The body of
  \<^verbatim>\<open>picolog_format\<close>, which only prints, and \<^verbatim>\<open>picolog_level_name\<close>, which it
  uses, are left out: \<^verbatim>\<open>picolog_format\<close> appears as a callback like any other.
\<close>

subsection \<open>Types and constants of picolog.h\<close>

text \<open>
  \<^verbatim>\<open>picolog_level_t\<close> is a C enumeration; its values are integers and the code compares
  them with \<^verbatim>\<open>>=\<close>. A threshold field can also hold 0 (after \<^verbatim>\<open>memset\<close>), which is
  no enumerator, so levels are modelled by their integer values.
\<close>

type_synonym picolog_level_t = int

definition PICOLOG_TRACE_LEVEL :: picolog_level_t where
  "PICOLOG_TRACE_LEVEL = 100"

definition PICOLOG_DEBUG_LEVEL :: picolog_level_t where
  "PICOLOG_DEBUG_LEVEL = 101"

definition PICOLOG_INFO_LEVEL :: picolog_level_t where
  "PICOLOG_INFO_LEVEL = 102"

definition PICOLOG_WARNING_LEVEL :: picolog_level_t where
  "PICOLOG_WARNING_LEVEL = 103"

definition PICOLOG_ERROR_LEVEL :: picolog_level_t where
  "PICOLOG_ERROR_LEVEL = 104"

definition PICOLOG_CRITICAL_LEVEL :: picolog_level_t where
  "PICOLOG_CRITICAL_LEVEL = 105"

definition PICOLOG_ALWAYS_LEVEL :: picolog_level_t where
  "PICOLOG_ALWAYS_LEVEL = 106"

datatype picolog_err_t =
    PICOLOG_ERR_NONE
  | PICOLOG_ERR_SUBSCRIBERS_EXCEEDED
  | PICOLOG_ERR_NOT_SUBSCRIBED

text \<open>
  The two build-time constants, at the defaults the header gives them. Of their values
  the general proofs below use only that they are positive.
\<close>

definition PICOLOG_MAX_SUBSCRIBERS :: nat where
  "PICOLOG_MAX_SUBSCRIBERS = 6"

definition PICOLOG_MAX_MESSAGE_LENGTH :: nat where
  "PICOLOG_MAX_MESSAGE_LENGTH = 120"

text \<open>
  \<^verbatim>\<open>picolog_function_t\<close> is a pointer to a function. The code only compares such
  pointers and calls through them, so a pointer is modelled by its identity: the null
  pointer, the address of \<^verbatim>\<open>picolog_format\<close>, or the address of a function of the
  application, numbered.
\<close>

datatype picolog_function_t = NULL | Fn_picolog_format | Fn_user nat

subsection \<open>Local storage of picolog.c\<close>

record subscriber_t =
  fn :: picolog_function_t
  threshold :: picolog_level_t

text \<open>
  A call through a subscriber's pointer runs code outside picolog. The model records it:
  which function was called, with which severity, and the C string found at
  \<^verbatim>\<open>msg\<close> when the call was made. The callee is taken to leave \<^verbatim>\<open>s_subscribers\<close>
  and \<^verbatim>\<open>s_message\<close> alone. What \<^verbatim>\<open>printf\<close> sends to the terminal is not part
  of the state.
\<close>

type_synonym invocation = "picolog_function_t \<times> picolog_level_t \<times> string"

record picolog_state =
  s_subscribers :: "subscriber_t list"
  s_message :: "char list"
  invoked :: "invocation list"

text \<open>All-bits-zero, as \<^verbatim>\<open>memset\<close> and static initialisation leave a slot.\<close>

definition zero_subscriber :: subscriber_t where
  "zero_subscriber = \<lparr>fn = NULL, threshold = 0\<rparr>"

definition NUL :: char where
  "NUL = CHR 0x00"

text \<open>The state of the statics when the program starts: zero-initialised.\<close>

definition picolog_start :: picolog_state where
  "picolog_start =
     \<lparr>s_subscribers = replicate PICOLOG_MAX_SUBSCRIBERS zero_subscriber,
      s_message = replicate PICOLOG_MAX_MESSAGE_LENGTH NUL,
      invoked = []\<rparr>"

subsection \<open>The C library: strings and vsnprintf\<close>

text \<open>The C string that starts at the beginning of a buffer: the bytes before the first NUL.\<close>

definition c_str :: "char list \<Rightarrow> string" where
  "c_str buf = takeWhile (\<lambda>c. c \<noteq> NUL) buf"

text \<open>
  \<^verbatim>\<open>vsnprintf(buf, n, fmt, ap)\<close> of the C library. The characters that \<^verbatim>\<open>fmt\<close> and
  its arguments expand to are the parameter \<open>out\<close>. For \<open>n > 0\<close> the call stores at
  most \<open>n - 1\<close> of them from index 0 on, then one NUL, and leaves the rest of the buffer
  as it was; for \<open>n = 0\<close> it stores nothing. A store beyond the end of \<open>buf\<close> shows as
  a longer list.
\<close>

definition vsnprintf :: "char list \<Rightarrow> nat \<Rightarrow> string \<Rightarrow> char list" where
  "vsnprintf buf n out =
     (if n = 0 then buf
      else take (n - 1) out @ [NUL] @ drop (Suc (min (length out) (n - 1))) buf)"

subsection \<open>picolog\_subscribe\<close>

text \<open>
  The \<^verbatim>\<open>for\<close> loop of \<^verbatim>\<open>picolog_subscribe\<close> from index \<open>i\<close> on, with the current
  value of \<^verbatim>\<open>available_slot\<close>, followed by the code after the loop.
\<close>

function subscribe_loop ::
  "picolog_function_t \<Rightarrow> picolog_level_t \<Rightarrow> nat \<Rightarrow> int \<Rightarrow> subscriber_t list
     \<Rightarrow> picolog_err_t \<times> subscriber_t list" where
  "subscribe_loop f t i available_slot subs =
     (if i < PICOLOG_MAX_SUBSCRIBERS then
        (if fn (subs ! i) = f then
           (PICOLOG_ERR_NONE, subs[i := (subs ! i)\<lparr>threshold := t\<rparr>])
         else if fn (subs ! i) = NULL then
           subscribe_loop f t (Suc i) (int i) subs
         else
           subscribe_loop f t (Suc i) available_slot subs)
      else if available_slot = - 1 then
        (PICOLOG_ERR_SUBSCRIBERS_EXCEEDED, subs)
      else
        (PICOLOG_ERR_NONE, subs[nat available_slot := \<lparr>fn = f, threshold = t\<rparr>]))"
  by pat_completeness auto
termination
  by (relation "measure (\<lambda>(f, t, i, a, subs). PICOLOG_MAX_SUBSCRIBERS - i)") auto

definition picolog_subscribe ::
  "picolog_function_t \<Rightarrow> picolog_level_t \<Rightarrow> picolog_state \<Rightarrow> picolog_err_t \<times> picolog_state" where
  "picolog_subscribe f t s =
     (case subscribe_loop f t 0 (- 1) (s_subscribers s) of
        (err, subs) \<Rightarrow> (err, s\<lparr>s_subscribers := subs\<rparr>))"

subsection \<open>picolog\_unsubscribe\<close>

function unsubscribe_loop ::
  "picolog_function_t \<Rightarrow> nat \<Rightarrow> subscriber_t list \<Rightarrow> picolog_err_t \<times> subscriber_t list" where
  "unsubscribe_loop f i subs =
     (if i < PICOLOG_MAX_SUBSCRIBERS then
        (if fn (subs ! i) = f then
           (PICOLOG_ERR_NONE, subs[i := (subs ! i)\<lparr>fn := NULL\<rparr>])
         else
           unsubscribe_loop f (Suc i) subs)
      else
        (PICOLOG_ERR_NOT_SUBSCRIBED, subs))"
  by pat_completeness auto
termination
  by (relation "measure (\<lambda>(f, i, subs). PICOLOG_MAX_SUBSCRIBERS - i)") auto

definition picolog_unsubscribe ::
  "picolog_function_t \<Rightarrow> picolog_state \<Rightarrow> picolog_err_t \<times> picolog_state" where
  "picolog_unsubscribe f s =
     (case unsubscribe_loop f 0 (s_subscribers s) of
        (err, subs) \<Rightarrow> (err, s\<lparr>s_subscribers := subs\<rparr>))"

subsection \<open>picolog\_init\<close>

text \<open>
  \<^verbatim>\<open>memset\<close> zeroes the whole table, whatever it held; the result of
  \<^verbatim>\<open>picolog_subscribe\<close> is dropped, as the C function is \<^verbatim>\<open>void\<close>.
\<close>

definition picolog_init :: "picolog_level_t \<Rightarrow> picolog_state \<Rightarrow> picolog_state" where
  "picolog_init t s =
     snd (picolog_subscribe Fn_picolog_format t
            (s\<lparr>s_subscribers := replicate PICOLOG_MAX_SUBSCRIBERS zero_subscriber\<rparr>))"

subsection \<open>picolog\_message\<close>

text \<open>The call \<^verbatim>\<open>s_subscribers[i].fn(severity, s_message)\<close>.\<close>

definition invoke :: "picolog_function_t \<Rightarrow> picolog_level_t \<Rightarrow> picolog_state \<Rightarrow> picolog_state" where
  "invoke f severity s = s\<lparr>invoked := invoked s @ [(f, severity, c_str (s_message s))]\<rparr>"

function message_loop :: "picolog_level_t \<Rightarrow> nat \<Rightarrow> picolog_state \<Rightarrow> picolog_state" where
  "message_loop severity i s =
     (if i < PICOLOG_MAX_SUBSCRIBERS then
        (if fn (s_subscribers s ! i) \<noteq> NULL then
           (if severity \<ge> threshold (s_subscribers s ! i) then
              message_loop severity (Suc i) (invoke (fn (s_subscribers s ! i)) severity s)
            else
              message_loop severity (Suc i) s)
         else
           message_loop severity (Suc i) s)
      else s)"
  by pat_completeness auto
termination
  by (relation "measure (\<lambda>(severity, i, s). PICOLOG_MAX_SUBSCRIBERS - i)") auto

text \<open>
  \<^verbatim>\<open>picolog_message(severity, fmt, ...)\<close>; \<open>out\<close> is what \<^verbatim>\<open>fmt\<close> and the variable
  arguments expand to.
\<close>

definition picolog_message :: "picolog_level_t \<Rightarrow> string \<Rightarrow> picolog_state \<Rightarrow> picolog_state" where
  "picolog_message severity out s =
     message_loop severity 0
       (s\<lparr>s_message := vsnprintf (s_message s) PICOLOG_MAX_MESSAGE_LENGTH out\<rparr>)"

subsection \<open>Notions used to state the properties\<close>

text \<open>A slot is live when its \<^verbatim>\<open>fn\<close> is not NULL, and free otherwise.\<close>

definition live :: "subscriber_t list \<Rightarrow> subscriber_t list" where
  "live subs = filter (\<lambda>sub. fn sub \<noteq> NULL) subs"

text \<open>
  The invariant of the registry: the table has its declared size, and no two live slots
  hold the same callback.
\<close>

definition registry_inv :: "subscriber_t list \<Rightarrow> bool" where
  "registry_inv subs \<longleftrightarrow>
     length subs = PICOLOG_MAX_SUBSCRIBERS \<and> distinct (map fn (live subs))"

text \<open>The calls made between a state and a later one, and those to one callback.\<close>

definition emitted :: "picolog_state \<Rightarrow> picolog_state \<Rightarrow> invocation list" where
  "emitted s s' = drop (length (invoked s)) (invoked s')"

definition calls_to :: "picolog_function_t \<Rightarrow> picolog_state \<Rightarrow> picolog_state \<Rightarrow> invocation list" where
  "calls_to f s s' = filter (\<lambda>c. fst c = f) (emitted s s')"

text \<open>The subscribers that \<^verbatim>\<open>picolog_message\<close> has to call for a severity, in slot order.\<close>

definition matching :: "picolog_level_t \<Rightarrow> subscriber_t list \<Rightarrow> subscriber_t list" where
  "matching severity subs = filter (\<lambda>sub. fn sub \<noteq> NULL \<and> severity \<ge> threshold sub) subs"

text \<open>A caller that subscribes the same callback several times, one threshold after another.\<close>

fun subscribe_seq ::
  "picolog_function_t \<Rightarrow> picolog_level_t list \<Rightarrow> picolog_state \<Rightarrow> picolog_err_t list \<times> picolog_state" where
  "subscribe_seq f [] s = ([], s)"
| "subscribe_seq f (t # ts) s =
     (case picolog_subscribe f t s of
        (e, s') \<Rightarrow> (case subscribe_seq f ts s' of (es, s'') \<Rightarrow> (e # es, s'')))"

text \<open>A caller that runs any sequence of the public operations.\<close>

datatype picolog_op =
    Init picolog_level_t
  | Subscribe picolog_function_t picolog_level_t
  | Unsubscribe picolog_function_t
  | Message picolog_level_t string

fun run_op :: "picolog_op \<Rightarrow> picolog_state \<Rightarrow> picolog_state" where
  "run_op (Init t) s = picolog_init t s"
| "run_op (Subscribe f t) s = snd (picolog_subscribe f t s)"
| "run_op (Unsubscribe f) s = snd (picolog_unsubscribe f s)"
| "run_op (Message severity out) s = picolog_message severity out s"

fun run_ops :: "picolog_op list \<Rightarrow> picolog_state \<Rightarrow> picolog_state" where
  "run_ops [] s = s"
| "run_ops (x # xs) s = run_ops xs (run_op x s)"

text \<open>The first free slot in the scan order \<open>0, 1, ...\<close> of the loops, if there is one.\<close>

fun first_free_from :: "nat \<Rightarrow> subscriber_t list \<Rightarrow> nat option" where
  "first_free_from i [] = None"
| "first_free_from i (sub # subs) =
     (if fn sub = NULL then Some i else first_free_from (Suc i) subs)"

definition first_free :: "subscriber_t list \<Rightarrow> nat option" where
  "first_free subs = first_free_from 0 subs"

subsection \<open>Concrete registries\<close>

text \<open>The registry right after \<^verbatim>\<open>PICOLOG_INIT(PICOLOG_INFO_LEVEL)\<close> at program start.\<close>

definition example_init :: picolog_state where
  "example_init = picolog_init PICOLOG_INFO_LEVEL picolog_start"

text \<open>The application of the header's introduction: a console and a file logger.\<close>

definition example_two_sinks :: picolog_state where
  "example_two_sinks =
     run_ops [Init PICOLOG_INFO_LEVEL,
              Subscribe (Fn_user 1) PICOLOG_WARNING_LEVEL,
              Subscribe (Fn_user 2) PICOLOG_DEBUG_LEVEL] picolog_start"

text \<open>A registry with every slot taken: the formatter and five sinks of the application.\<close>

definition example_full :: picolog_state where
  "example_full =
     run_ops [Init PICOLOG_INFO_LEVEL,
              Subscribe (Fn_user 1) PICOLOG_TRACE_LEVEL,
              Subscribe (Fn_user 2) PICOLOG_DEBUG_LEVEL,
              Subscribe (Fn_user 3) PICOLOG_WARNING_LEVEL,
              Subscribe (Fn_user 4) PICOLOG_ERROR_LEVEL,
              Subscribe (Fn_user 5) PICOLOG_CRITICAL_LEVEL] picolog_start"

section \<open>Properties\<close>

subsection \<open>The loops\<close>

declare subscribe_loop.simps [simp del]
declare unsubscribe_loop.simps [simp del]
declare message_loop.simps [simp del]

lemma subscribe_loop_match:
  "i \<le> k \<Longrightarrow> k < PICOLOG_MAX_SUBSCRIBERS \<Longrightarrow> fn (subs ! k) = f \<Longrightarrow>
   (\<forall>j. i \<le> j \<and> j < k \<longrightarrow> fn (subs ! j) \<noteq> f) \<Longrightarrow>
   subscribe_loop f t i a subs = (PICOLOG_ERR_NONE, subs[k := (subs ! k)\<lparr>threshold := t\<rparr>])"
proof (induction f t i a subs rule: subscribe_loop.induct)
  case (1 f t i a subs)
  show ?case
  proof (cases "i = k")
    case True
    with "1.prems" show ?thesis by (subst subscribe_loop.simps) simp
  next
    case False
    with "1.prems" have lt: "i < k" and ne: "fn (subs ! i) \<noteq> f" by auto
    from lt "1.prems" have iN: "i < PICOLOG_MAX_SUBSCRIBERS" by simp
    have rest: "\<forall>j. Suc i \<le> j \<and> j < k \<longrightarrow> fn (subs ! j) \<noteq> f" using "1.prems" by auto
    show ?thesis
    proof (cases "fn (subs ! i) = NULL")
      case True
      from "1.IH"(1)[OF iN ne True _ "1.prems"(2,3) rest] lt iN ne True
      show ?thesis by (subst subscribe_loop.simps) simp
    next
      case False
      from "1.IH"(2)[OF iN ne False _ "1.prems"(2,3) rest] lt iN ne False
      show ?thesis by (subst subscribe_loop.simps) simp
    qed
  qed
qed

lemma subscribe_loop_no_free:
  "(\<forall>j. i \<le> j \<and> j < PICOLOG_MAX_SUBSCRIBERS \<longrightarrow> fn (subs ! j) \<noteq> f \<and> fn (subs ! j) \<noteq> NULL) \<Longrightarrow>
   subscribe_loop f t i a subs =
     (if a = - 1 then (PICOLOG_ERR_SUBSCRIBERS_EXCEEDED, subs)
      else (PICOLOG_ERR_NONE, subs[nat a := \<lparr>fn = f, threshold = t\<rparr>]))"
proof (induction f t i a subs rule: subscribe_loop.induct)
  case (1 f t i a subs)
  show ?case
  proof (cases "i < PICOLOG_MAX_SUBSCRIBERS")
    case True
    with "1.prems" have ne: "fn (subs ! i) \<noteq> f" and nn: "fn (subs ! i) \<noteq> NULL" by auto
    have rest: "\<forall>j. Suc i \<le> j \<and> j < PICOLOG_MAX_SUBSCRIBERS \<longrightarrow> fn (subs ! j) \<noteq> f \<and> fn (subs ! j) \<noteq> NULL"
      using "1.prems" by auto
    from "1.IH"(2)[OF True ne nn rest] True ne nn
    show ?thesis by (subst subscribe_loop.simps) simp
  next
    case False
    then show ?thesis by (subst subscribe_loop.simps) simp
  qed
qed

lemma subscribe_loop_last_free:
  "i \<le> k \<Longrightarrow> k < PICOLOG_MAX_SUBSCRIBERS \<Longrightarrow> fn (subs ! k) = NULL \<Longrightarrow>
   (\<forall>j. k < j \<and> j < PICOLOG_MAX_SUBSCRIBERS \<longrightarrow> fn (subs ! j) \<noteq> NULL) \<Longrightarrow>
   (\<forall>j. i \<le> j \<and> j < PICOLOG_MAX_SUBSCRIBERS \<longrightarrow> fn (subs ! j) \<noteq> f) \<Longrightarrow>
   subscribe_loop f t i a subs = (PICOLOG_ERR_NONE, subs[k := \<lparr>fn = f, threshold = t\<rparr>])"
proof (induction f t i a subs rule: subscribe_loop.induct)
  case (1 f t i a subs)
  from "1.prems" have iN: "i < PICOLOG_MAX_SUBSCRIBERS" and ne: "fn (subs ! i) \<noteq> f" by auto
  have restf: "\<forall>j. Suc i \<le> j \<and> j < PICOLOG_MAX_SUBSCRIBERS \<longrightarrow> fn (subs ! j) \<noteq> f"
    using "1.prems" by auto
  show ?case
  proof (cases "i = k")
    case True
    have nofree: "\<forall>j. Suc i \<le> j \<and> j < PICOLOG_MAX_SUBSCRIBERS \<longrightarrow> fn (subs ! j) \<noteq> f \<and> fn (subs ! j) \<noteq> NULL"
      using "1.prems" True by auto
    from subscribe_loop_no_free[OF nofree, of t "int i"] True iN ne "1.prems"(3)
    show ?thesis by (subst subscribe_loop.simps) simp
  next
    case False
    with "1.prems" have lt: "Suc i \<le> k" by simp
    show ?thesis
    proof (cases "fn (subs ! i) = NULL")
      case True
      from "1.IH"(1)[OF iN ne True lt "1.prems"(2,3,4) restf] iN ne True
      show ?thesis by (subst subscribe_loop.simps) simp
    next
      case False
      from "1.IH"(2)[OF iN ne False lt "1.prems"(2,3,4) restf] iN ne False
      show ?thesis by (subst subscribe_loop.simps) simp
    qed
  qed
qed

lemma unsubscribe_loop_match:
  "i \<le> k \<Longrightarrow> k < PICOLOG_MAX_SUBSCRIBERS \<Longrightarrow> fn (subs ! k) = f \<Longrightarrow>
   (\<forall>j. i \<le> j \<and> j < k \<longrightarrow> fn (subs ! j) \<noteq> f) \<Longrightarrow>
   unsubscribe_loop f i subs = (PICOLOG_ERR_NONE, subs[k := (subs ! k)\<lparr>fn := NULL\<rparr>])"
proof (induction f i subs rule: unsubscribe_loop.induct)
  case (1 f i subs)
  show ?case
  proof (cases "i = k")
    case True
    with "1.prems" show ?thesis by (subst unsubscribe_loop.simps) simp
  next
    case False
    with "1.prems" have lt: "Suc i \<le> k" and ne: "fn (subs ! i) \<noteq> f" by auto
    from lt "1.prems" have iN: "i < PICOLOG_MAX_SUBSCRIBERS" by simp
    have rest: "\<forall>j. Suc i \<le> j \<and> j < k \<longrightarrow> fn (subs ! j) \<noteq> f" using "1.prems" by auto
    from "1.IH"[OF iN ne lt "1.prems"(2,3) rest] iN ne
    show ?thesis by (subst unsubscribe_loop.simps) simp
  qed
qed

lemma unsubscribe_loop_no_match:
  "(\<forall>j. i \<le> j \<and> j < PICOLOG_MAX_SUBSCRIBERS \<longrightarrow> fn (subs ! j) \<noteq> f) \<Longrightarrow>
   unsubscribe_loop f i subs = (PICOLOG_ERR_NOT_SUBSCRIBED, subs)"
proof (induction f i subs rule: unsubscribe_loop.induct)
  case (1 f i subs)
  show ?case
  proof (cases "i < PICOLOG_MAX_SUBSCRIBERS")
    case True
    with "1.prems" have ne: "fn (subs ! i) \<noteq> f" by auto
    have rest: "\<forall>j. Suc i \<le> j \<and> j < PICOLOG_MAX_SUBSCRIBERS \<longrightarrow> fn (subs ! j) \<noteq> f"
      using "1.prems" by auto
    from "1.IH"[OF True ne rest] True ne
    show ?thesis by (subst unsubscribe_loop.simps) simp
  next
    case False
    then show ?thesis by (subst unsubscribe_loop.simps) simp
  qed
qed

lemma message_loop_eq:
  "length (s_subscribers s) = PICOLOG_MAX_SUBSCRIBERS \<Longrightarrow>
   message_loop severity i s =
     s\<lparr>invoked := invoked s @
         map (\<lambda>sub. (fn sub, severity, c_str (s_message s)))
           (matching severity (drop i (s_subscribers s)))\<rparr>"
proof (induction severity i s rule: message_loop.induct)
  case (1 severity i s)
  show ?case
  proof (cases "i < PICOLOG_MAX_SUBSCRIBERS")
    case True
    with "1.prems" have dr: "drop i (s_subscribers s) = s_subscribers s ! i # drop (Suc i) (s_subscribers s)"
      by (simp add: Cons_nth_drop_Suc)
    show ?thesis
    proof (cases "fn (s_subscribers s ! i) \<noteq> NULL \<and> severity \<ge> threshold (s_subscribers s ! i)")
      case hit: True
      have len: "length (s_subscribers (invoke (fn (s_subscribers s ! i)) severity s)) = PICOLOG_MAX_SUBSCRIBERS"
        using "1.prems" by (simp add: invoke_def)
      from "1.IH"(1)[OF True _ _ len] hit True dr
      show ?thesis by (subst message_loop.simps) (simp add: invoke_def matching_def)
    next
      case miss: False
      show ?thesis
      proof (cases "fn (s_subscribers s ! i) \<noteq> NULL")
        case True': True
        from "1.IH"(2)[OF True True' _ "1.prems"] miss True True' dr
        show ?thesis by (subst message_loop.simps) (simp add: matching_def)
      next
        case False
        from "1.IH"(3)[OF True False "1.prems"] miss True False dr
        show ?thesis by (subst message_loop.simps) (simp add: matching_def)
      qed
    qed
  next
    case False
    with "1.prems" show ?thesis by (subst message_loop.simps) (simp add: matching_def)
  qed
qed

subsection \<open>Lists\<close>

lemma distinct_filter_update:
  "distinct (filter P xs) \<Longrightarrow> (P y \<longrightarrow> y \<notin> set xs) \<Longrightarrow> distinct (filter P (xs[k := y]))"
proof (induction xs arbitrary: k)
  case Nil
  then show ?case by simp
next
  case (Cons x xs)
  show ?case
  proof (cases k)
    case 0
    with Cons.prems show ?thesis by (auto split: if_splits)
  next
    case (Suc j)
    have "x \<notin> set (filter P (xs[j := y]))" if "P x"
    proof
      assume "x \<in> set (filter P (xs[j := y]))"
      then have "x \<in> insert y (set xs)"
        using set_update_subset_insert[of xs j y] by auto
      with Cons.prems that show False by (auto split: if_splits)
    qed
    with Cons Suc show ?thesis by (auto split: if_splits)
  qed
qed

lemma filter_update_dead:
  "k < length xs \<Longrightarrow> \<not> P (xs ! k) \<Longrightarrow> \<not> P y \<Longrightarrow> filter P (xs[k := y]) = filter P xs"
  by (induction xs arbitrary: k) (auto split: nat.splits)

lemma first_index:
  "x \<in> set xs \<Longrightarrow> \<exists>k<length xs. xs ! k = x \<and> (\<forall>j<k. xs ! j \<noteq> x)"
proof -
  assume "x \<in> set xs"
  then obtain ys zs where xs: "xs = ys @ x # zs" and nin: "x \<notin> set ys"
    by (auto dest: split_list_first)
  have "\<forall>j<length ys. xs ! j \<noteq> x"
    using nin xs by (auto simp: nth_append)
  with xs show ?thesis
    by (intro exI[of _ "length ys"]) simp
qed

lemma filter_key_distinct:
  "distinct (map h xs) \<Longrightarrow> x \<in> set xs \<Longrightarrow> filter (\<lambda>y. h y = h x) xs = [x]"
  by (induction xs) (auto simp: filter_empty_conv image_iff)

lemma nth_fn_notin:
  "f \<notin> fn ` set subs \<Longrightarrow> j < length subs \<Longrightarrow> fn (subs ! j) \<noteq> f"
  by (metis imageI nth_mem)

subsection \<open>The concrete registries, evaluated\<close>

lemma example_full_table:
  "s_subscribers example_full =
     [\<lparr>fn = Fn_user 5, threshold = 105\<rparr>, \<lparr>fn = Fn_user 4, threshold = 104\<rparr>,
      \<lparr>fn = Fn_user 3, threshold = 103\<rparr>, \<lparr>fn = Fn_user 2, threshold = 101\<rparr>,
      \<lparr>fn = Fn_user 1, threshold = 100\<rparr>, \<lparr>fn = Fn_picolog_format, threshold = 102\<rparr>]"
  by code_simp

lemma example_two_sinks_table:
  "s_subscribers example_two_sinks =
     [\<lparr>fn = NULL, threshold = 0\<rparr>, \<lparr>fn = NULL, threshold = 0\<rparr>,
      \<lparr>fn = NULL, threshold = 0\<rparr>, \<lparr>fn = Fn_user 2, threshold = 101\<rparr>,
      \<lparr>fn = Fn_user 1, threshold = 103\<rparr>, \<lparr>fn = Fn_picolog_format, threshold = 102\<rparr>]"
  by code_simp

lemma example_two_sinks_rest:
  "s_message example_two_sinks = replicate PICOLOG_MAX_MESSAGE_LENGTH NUL \<and>
   invoked example_two_sinks = []"
  by code_simp

lemma example_init_table:
  "s_subscribers example_init =
     [\<lparr>fn = NULL, threshold = 0\<rparr>, \<lparr>fn = NULL, threshold = 0\<rparr>,
      \<lparr>fn = NULL, threshold = 0\<rparr>, \<lparr>fn = NULL, threshold = 0\<rparr>,
      \<lparr>fn = NULL, threshold = 0\<rparr>, \<lparr>fn = Fn_picolog_format, threshold = 102\<rparr>]"
  by code_simp

lemma example_init_rest:
  "s_message example_init = replicate PICOLOG_MAX_MESSAGE_LENGTH NUL \<and>
   invoked example_init = []"
  by code_simp

subsection \<open>What picolog\_subscribe and picolog\_unsubscribe do\<close>

lemma registry_inv_alt:
  "registry_inv subs \<longleftrightarrow>
     length subs = PICOLOG_MAX_SUBSCRIBERS \<and> distinct (filter (\<lambda>g. g \<noteq> NULL) (map fn subs))"
  by (simp add: registry_inv_def live_def filter_map comp_def)

lemma nth_after_notin:
  assumes "x \<notin> set (drop (Suc k) xs)" and "k < j" and "j < length xs"
  shows "xs ! j \<noteq> x"
proof -
  have "drop (Suc k) xs ! (j - Suc k) = xs ! j" using assms by simp
  moreover have "j - Suc k < length (drop (Suc k) xs)" using assms by auto
  ultimately show ?thesis using assms(1) by (metis nth_mem)
qed

lemma picolog_subscribe_registered:
  assumes len: "length (s_subscribers s) = PICOLOG_MAX_SUBSCRIBERS"
    and k: "k < PICOLOG_MAX_SUBSCRIBERS"
    and at: "fn (s_subscribers s ! k) = f"
    and first: "\<forall>j<k. fn (s_subscribers s ! j) \<noteq> f"
  shows "picolog_subscribe f t s =
           (PICOLOG_ERR_NONE,
            s\<lparr>s_subscribers := (s_subscribers s)[k := (s_subscribers s ! k)\<lparr>threshold := t\<rparr>]\<rparr>)"
  using subscribe_loop_match[of 0 k "s_subscribers s" f t "- 1"] k at first
  by (simp add: picolog_subscribe_def)

lemma picolog_subscribe_fresh:
  assumes len: "length (s_subscribers s) = PICOLOG_MAX_SUBSCRIBERS"
    and new: "f \<notin> fn ` set (s_subscribers s)"
    and k: "k < PICOLOG_MAX_SUBSCRIBERS"
    and free: "fn (s_subscribers s ! k) = NULL"
    and last: "NULL \<notin> fn ` set (drop (Suc k) (s_subscribers s))"
  shows "picolog_subscribe f t s =
           (PICOLOG_ERR_NONE,
            s\<lparr>s_subscribers := (s_subscribers s)[k := \<lparr>fn = f, threshold = t\<rparr>]\<rparr>)"
proof -
  have nomatch: "\<forall>j. 0 \<le> j \<and> j < PICOLOG_MAX_SUBSCRIBERS \<longrightarrow> fn (s_subscribers s ! j) \<noteq> f"
    using new len by (simp add: nth_fn_notin)
  have "NULL \<notin> set (drop (Suc k) (map fn (s_subscribers s)))"
    using last by (simp add: drop_map)
  then have nofree: "\<forall>j. k < j \<and> j < PICOLOG_MAX_SUBSCRIBERS \<longrightarrow> fn (s_subscribers s ! j) \<noteq> NULL"
    using nth_after_notin[of NULL k "map fn (s_subscribers s)"] len by auto
  have "subscribe_loop f t 0 (- 1) (s_subscribers s) =
          (PICOLOG_ERR_NONE, (s_subscribers s)[k := \<lparr>fn = f, threshold = t\<rparr>])"
    by (rule subscribe_loop_last_free) (use k free nofree nomatch in simp_all)
  then show ?thesis by (simp add: picolog_subscribe_def)
qed

lemma picolog_subscribe_full:
  assumes "length (s_subscribers s) = PICOLOG_MAX_SUBSCRIBERS"
    and "NULL \<notin> fn ` set (s_subscribers s)"
    and "f \<notin> fn ` set (s_subscribers s)"
  shows "picolog_subscribe f t s = (PICOLOG_ERR_SUBSCRIBERS_EXCEEDED, s)"
proof -
  have "\<forall>j. 0 \<le> j \<and> j < PICOLOG_MAX_SUBSCRIBERS \<longrightarrow>
          fn (s_subscribers s ! j) \<noteq> f \<and> fn (s_subscribers s ! j) \<noteq> NULL"
    using assms by (simp add: nth_fn_notin)
  then have "subscribe_loop f t 0 (- 1) (s_subscribers s) =
               (PICOLOG_ERR_SUBSCRIBERS_EXCEEDED, s_subscribers s)"
    by (simp add: subscribe_loop_no_free)
  then show ?thesis by (simp add: picolog_subscribe_def)
qed

lemma first_slot_of:
  assumes "f \<in> fn ` set subs"
  shows "\<exists>k<length subs. fn (subs ! k) = f \<and> (\<forall>j<k. fn (subs ! j) \<noteq> f)"
proof -
  from assms have "f \<in> set (map fn subs)" by simp
  from first_index[OF this] obtain k where
    "k < length (map fn subs)" "map fn subs ! k = f" "\<forall>j<k. map fn subs ! j \<noteq> f" by blast
  then show ?thesis by (intro exI[of _ k]) auto
qed

lemma last_slot_of:
  assumes "f \<in> fn ` set subs"
  shows "\<exists>k<length subs. fn (subs ! k) = f \<and> f \<notin> fn ` set (drop (Suc k) subs)"
proof -
  from assms have "f \<in> set (map fn subs)" by simp
  from split_list_last[OF this]
  obtain ys zs where xs: "map fn subs = ys @ f # zs" and nin: "f \<notin> set zs"
    by blast
  have k: "length ys < length subs"
    using arg_cong[OF xs, of length] by simp
  have "map fn subs ! length ys = f" using xs by simp
  then have at: "fn (subs ! length ys) = f" using k by simp
  have "drop (Suc (length ys)) (map fn subs) = zs" using xs by simp
  then have "f \<notin> set (map fn (drop (Suc (length ys)) subs))" using nin by (simp add: drop_map)
  with k at show ?thesis by (intro exI[of _ "length ys"]) simp
qed

text \<open>The three outcomes of \<^verbatim>\<open>picolog_subscribe\<close>, by what the table holds.\<close>

lemma picolog_subscribe_cases:
  assumes len: "length (s_subscribers s) = PICOLOG_MAX_SUBSCRIBERS"
  obtains
    (update) k where "k < PICOLOG_MAX_SUBSCRIBERS" "fn (s_subscribers s ! k) = f"
      "\<forall>j<k. fn (s_subscribers s ! j) \<noteq> f"
      "picolog_subscribe f t s =
         (PICOLOG_ERR_NONE,
          s\<lparr>s_subscribers := (s_subscribers s)[k := (s_subscribers s ! k)\<lparr>threshold := t\<rparr>]\<rparr>)"
  | (insert) k where "f \<notin> fn ` set (s_subscribers s)" "f \<noteq> NULL" "k < PICOLOG_MAX_SUBSCRIBERS"
      "fn (s_subscribers s ! k) = NULL" "NULL \<notin> fn ` set (drop (Suc k) (s_subscribers s))"
      "picolog_subscribe f t s =
         (PICOLOG_ERR_NONE, s\<lparr>s_subscribers := (s_subscribers s)[k := \<lparr>fn = f, threshold = t\<rparr>]\<rparr>)"
  | (full) "f \<notin> fn ` set (s_subscribers s)" "NULL \<notin> fn ` set (s_subscribers s)"
      "picolog_subscribe f t s = (PICOLOG_ERR_SUBSCRIBERS_EXCEEDED, s)"
proof (cases "f \<in> fn ` set (s_subscribers s)")
  case True
  from first_slot_of[OF True] len obtain k where
    "k < PICOLOG_MAX_SUBSCRIBERS" "fn (s_subscribers s ! k) = f" "\<forall>j<k. fn (s_subscribers s ! j) \<noteq> f"
    by auto
  then show ?thesis using picolog_subscribe_registered[OF len, of k f t] update by blast
next
  case False
  show ?thesis
  proof (cases "NULL \<in> fn ` set (s_subscribers s)")
    case True
    from last_slot_of[OF True] len obtain k where
      k: "k < PICOLOG_MAX_SUBSCRIBERS" "fn (s_subscribers s ! k) = NULL"
         "NULL \<notin> fn ` set (drop (Suc k) (s_subscribers s))"
      by auto
    from True False have "f \<noteq> NULL" by auto
    then show ?thesis using picolog_subscribe_fresh[OF len False k, of t] k False insert by blast
  next
    case nofree: False
    then show ?thesis using picolog_subscribe_full[OF len nofree False, of t] False full by blast
  qed
qed

lemma picolog_unsubscribe_registered:
  assumes "k < PICOLOG_MAX_SUBSCRIBERS"
    and "fn (s_subscribers s ! k) = f"
    and "\<forall>j<k. fn (s_subscribers s ! j) \<noteq> f"
  shows "picolog_unsubscribe f s =
           (PICOLOG_ERR_NONE,
            s\<lparr>s_subscribers := (s_subscribers s)[k := (s_subscribers s ! k)\<lparr>fn := NULL\<rparr>]\<rparr>)"
  using unsubscribe_loop_match[of 0 k "s_subscribers s" f] assms
  by (simp add: picolog_unsubscribe_def)

lemma picolog_unsubscribe_absent:
  assumes "length (s_subscribers s) = PICOLOG_MAX_SUBSCRIBERS"
    and "f \<notin> fn ` set (s_subscribers s)"
  shows "picolog_unsubscribe f s = (PICOLOG_ERR_NOT_SUBSCRIBED, s)"
proof -
  have "\<forall>j. 0 \<le> j \<and> j < PICOLOG_MAX_SUBSCRIBERS \<longrightarrow> fn (s_subscribers s ! j) \<noteq> f"
    using assms by (simp add: nth_fn_notin)
  then show ?thesis
    by (simp add: picolog_unsubscribe_def unsubscribe_loop_no_match)
qed

subsection \<open>What picolog\_message does\<close>

lemma picolog_message_eq:
  assumes "length (s_subscribers s) = PICOLOG_MAX_SUBSCRIBERS"
  shows "picolog_message severity out s =
     s\<lparr>s_message := vsnprintf (s_message s) PICOLOG_MAX_MESSAGE_LENGTH out,
       invoked := invoked s @
         map (\<lambda>sub. (fn sub, severity, c_str (vsnprintf (s_message s) PICOLOG_MAX_MESSAGE_LENGTH out)))
           (matching severity (s_subscribers s))\<rparr>"
  using assms by (simp add: picolog_message_def message_loop_eq)

lemma emitted_message:
  assumes "length (s_subscribers s) = PICOLOG_MAX_SUBSCRIBERS"
  shows "emitted s (picolog_message severity out s) =
     map (\<lambda>sub. (fn sub, severity, c_str (vsnprintf (s_message s) PICOLOG_MAX_MESSAGE_LENGTH out)))
       (matching severity (s_subscribers s))"
  using assms by (simp add: picolog_message_eq emitted_def)

lemma matching_of_live_slot:
  assumes inv: "registry_inv subs"
    and i: "i < PICOLOG_MAX_SUBSCRIBERS"
    and lv: "fn (subs ! i) \<noteq> NULL"
  shows "filter (\<lambda>sub. fn sub = fn (subs ! i)) (matching severity subs) =
           (if severity \<ge> threshold (subs ! i) then [subs ! i] else [])"
proof -
  from inv i have mem: "subs ! i \<in> set (live subs)"
    using lv by (simp add: registry_inv_def live_def)
  from inv have "distinct (map fn (live subs))" by (simp add: registry_inv_def)
  from filter_key_distinct[OF this mem]
  have one: "filter (\<lambda>sub. fn sub = fn (subs ! i)) (live subs) = [subs ! i]" .
  have "filter (\<lambda>sub. fn sub = fn (subs ! i)) (matching severity subs) =
          filter (\<lambda>sub. severity \<ge> threshold sub) (filter (\<lambda>sub. fn sub = fn (subs ! i)) (live subs))"
    by (auto simp: matching_def live_def intro: filter_cong)
  with one show ?thesis by simp
qed

lemma calls_to_message:
  assumes inv: "registry_inv (s_subscribers s)"
    and i: "i < PICOLOG_MAX_SUBSCRIBERS"
    and lv: "fn (s_subscribers s ! i) \<noteq> NULL"
  shows "calls_to (fn (s_subscribers s ! i)) s (picolog_message severity out s) =
           (if severity \<ge> threshold (s_subscribers s ! i)
            then [(fn (s_subscribers s ! i), severity,
                   c_str (vsnprintf (s_message s) PICOLOG_MAX_MESSAGE_LENGTH out))]
            else [])"
proof -
  from inv have len: "length (s_subscribers s) = PICOLOG_MAX_SUBSCRIBERS"
    by (simp add: registry_inv_def)
  have "calls_to (fn (s_subscribers s ! i)) s (picolog_message severity out s) =
          map (\<lambda>sub. (fn sub, severity, c_str (vsnprintf (s_message s) PICOLOG_MAX_MESSAGE_LENGTH out)))
            (filter (\<lambda>sub. fn sub = fn (s_subscribers s ! i)) (matching severity (s_subscribers s)))"
    by (simp add: calls_to_def emitted_message[OF len] filter_map comp_def)
  then show ?thesis
    by (simp add: matching_of_live_slot[OF inv i lv])
qed

subsection \<open>vsnprintf\<close>

lemma length_vsnprintf:
  "0 < n \<Longrightarrow> n \<le> length buf \<Longrightarrow> length (vsnprintf buf n out) = length buf"
  by (auto simp: vsnprintf_def min_def)

lemma c_str_vsnprintf:
  "0 < n \<Longrightarrow> c_str (vsnprintf buf n out) = c_str (take (n - 1) out)"
  by (simp add: vsnprintf_def c_str_def takeWhile_tail)

lemma vsnprintf_NUL:
  "0 < n \<Longrightarrow> vsnprintf buf n out ! min (length out) (n - 1) = NUL"
  by (simp add: vsnprintf_def nth_append min.commute)

lemma length_c_str_take: "length (c_str (take k out)) \<le> k"
  using length_takeWhile_le[of "\<lambda>c. c \<noteq> NUL" "take k out"] by (simp add: c_str_def)

subsection \<open>The invariant is kept\<close>

lemma map_fn_threshold_update:
  "k < length subs \<Longrightarrow> map fn (subs[k := (subs ! k)\<lparr>threshold := t\<rparr>]) = map fn subs"
  by (simp add: map_update list_update_same_conv)

lemma registry_inv_subscribe:
  assumes inv: "registry_inv (s_subscribers s)"
  shows "registry_inv (s_subscribers (snd (picolog_subscribe f t s)))"
proof -
  from inv have len: "length (s_subscribers s) = PICOLOG_MAX_SUBSCRIBERS"
    and dist: "distinct (filter (\<lambda>g. g \<noteq> NULL) (map fn (s_subscribers s)))"
    by (simp_all add: registry_inv_alt)
  from len show ?thesis
  proof (cases rule: picolog_subscribe_cases[where f = f and t = t])
    case (update k)
    then show ?thesis using len dist
      by (simp add: registry_inv_alt map_fn_threshold_update)
  next
    case (insert k)
    have "distinct (filter (\<lambda>g. g \<noteq> NULL) ((map fn (s_subscribers s))[k := f]))"
      using dist insert(1) by (intro distinct_filter_update) auto
    then show ?thesis using insert len
      by (simp add: registry_inv_alt map_update)
  next
    case full
    then show ?thesis using inv by simp
  qed
qed

lemma registry_inv_unsubscribe:
  assumes inv: "registry_inv (s_subscribers s)"
  shows "registry_inv (s_subscribers (snd (picolog_unsubscribe f s)))"
proof -
  from inv have len: "length (s_subscribers s) = PICOLOG_MAX_SUBSCRIBERS"
    and dist: "distinct (filter (\<lambda>g. g \<noteq> NULL) (map fn (s_subscribers s)))"
    by (simp_all add: registry_inv_alt)
  show ?thesis
  proof (cases "f \<in> fn ` set (s_subscribers s)")
    case True
    from first_slot_of[OF True] len obtain k where
      k: "k < PICOLOG_MAX_SUBSCRIBERS" "fn (s_subscribers s ! k) = f" "\<forall>j<k. fn (s_subscribers s ! j) \<noteq> f"
      by auto
    have "distinct (filter (\<lambda>g. g \<noteq> NULL) ((map fn (s_subscribers s))[k := NULL]))"
      using dist by (intro distinct_filter_update) auto
    then show ?thesis using picolog_unsubscribe_registered[OF k] len
      by (simp add: registry_inv_alt map_update)
  next
    case False
    then show ?thesis using picolog_unsubscribe_absent[OF len False] inv by simp
  qed
qed

lemma registry_inv_zero:
  "registry_inv (replicate PICOLOG_MAX_SUBSCRIBERS zero_subscriber)"
  by (simp add: registry_inv_def live_def zero_subscriber_def)

lemma registry_inv_init: "registry_inv (s_subscribers (picolog_init t s))"
  unfolding picolog_init_def
  by (rule registry_inv_subscribe) (simp add: registry_inv_zero)

lemma registry_inv_message:
  "registry_inv (s_subscribers s) \<Longrightarrow> registry_inv (s_subscribers (picolog_message severity out s))"
  by (simp add: picolog_message_eq registry_inv_def)

lemma registry_inv_run_op:
  "registry_inv (s_subscribers s) \<Longrightarrow> registry_inv (s_subscribers (run_op x s))"
  by (cases x)
     (simp_all add: registry_inv_init registry_inv_subscribe registry_inv_unsubscribe
        registry_inv_message)

lemma registry_inv_run_ops:
  "registry_inv (s_subscribers s) \<Longrightarrow> registry_inv (s_subscribers (run_ops xs s))"
  by (induction xs arbitrary: s) (simp_all add: registry_inv_run_op)

lemma registry_inv_start: "registry_inv (s_subscribers picolog_start)"
  by (simp add: picolog_start_def registry_inv_zero)

subsection \<open>After picolog\_unsubscribe\<close>

lemma fn_update_same: "fn sub = g \<Longrightarrow> sub\<lparr>fn := g\<rparr> = sub"
  by (cases sub) simp

lemma picolog_unsubscribe_found:
  assumes len: "length (s_subscribers s) = PICOLOG_MAX_SUBSCRIBERS"
    and "f \<in> fn ` set (s_subscribers s)"
  shows "\<exists>k<PICOLOG_MAX_SUBSCRIBERS. fn (s_subscribers s ! k) = f \<and>
           (\<forall>j<k. fn (s_subscribers s ! j) \<noteq> f) \<and>
           picolog_unsubscribe f s =
             (PICOLOG_ERR_NONE,
              s\<lparr>s_subscribers := (s_subscribers s)[k := (s_subscribers s ! k)\<lparr>fn := NULL\<rparr>]\<rparr>)"
proof -
  from first_slot_of[OF assms(2)] len obtain k where
    k: "k < PICOLOG_MAX_SUBSCRIBERS" "fn (s_subscribers s ! k) = f" "\<forall>j<k. fn (s_subscribers s ! j) \<noteq> f"
    by auto
  from picolog_unsubscribe_registered[OF k] k show ?thesis by blast
qed

lemma unsubscribed_is_gone:
  assumes inv: "registry_inv (s_subscribers s)" and nn: "f \<noteq> NULL"
  shows "f \<notin> fn ` set (s_subscribers (snd (picolog_unsubscribe f s)))"
proof (cases "f \<in> fn ` set (s_subscribers s)")
  case True
  from inv have len: "length (s_subscribers s) = PICOLOG_MAX_SUBSCRIBERS"
    and dist: "distinct (filter (\<lambda>g. g \<noteq> NULL) (map fn (s_subscribers s)))"
    by (simp_all add: registry_inv_alt)
  from picolog_unsubscribe_found[OF len True] obtain k where
    k: "k < PICOLOG_MAX_SUBSCRIBERS" "fn (s_subscribers s ! k) = f"
    and res: "picolog_unsubscribe f s =
             (PICOLOG_ERR_NONE,
              s\<lparr>s_subscribers := (s_subscribers s)[k := (s_subscribers s ! k)\<lparr>fn := NULL\<rparr>]\<rparr>)"
    by blast
  let ?xs = "map fn (s_subscribers s)"
  have kl: "k < length ?xs" using k len by simp
  have xk: "?xs ! k = f" using k len by simp
  have split: "?xs = take k ?xs @ f # drop (Suc k) ?xs"
    using id_take_nth_drop[OF kl] xk by simp
  have "distinct (filter (\<lambda>g. g \<noteq> NULL) (take k ?xs @ f # drop (Suc k) ?xs))"
    using dist split by simp
  then have "f \<notin> set (take k ?xs)" "f \<notin> set (drop (Suc k) ?xs)"
    using nn by auto
  moreover have "?xs[k := NULL] = take k ?xs @ NULL # drop (Suc k) ?xs"
    using kl by (simp add: upd_conv_take_nth_drop)
  ultimately have "f \<notin> set (?xs[k := NULL])" using nn by auto
  then have "f \<notin> set (map fn ((s_subscribers s)[k := (s_subscribers s ! k)\<lparr>fn := NULL\<rparr>]))"
    by (simp add: map_update)
  then show ?thesis by (simp add: res)
next
  case False
  from inv have len: "length (s_subscribers s) = PICOLOG_MAX_SUBSCRIBERS"
    by (simp add: registry_inv_def)
  from picolog_unsubscribe_absent[OF len False] False show ?thesis by simp
qed

subsection \<open>What picolog\_init does\<close>

lemma picolog_init_table:
  "s_subscribers (picolog_init t s) =
     (replicate PICOLOG_MAX_SUBSCRIBERS zero_subscriber)
       [PICOLOG_MAX_SUBSCRIBERS - 1 := \<lparr>fn = Fn_picolog_format, threshold = t\<rparr>]"
proof -
  let ?s0 = "s\<lparr>s_subscribers := replicate PICOLOG_MAX_SUBSCRIBERS zero_subscriber\<rparr>"
  have pos: "0 < PICOLOG_MAX_SUBSCRIBERS" by (simp add: PICOLOG_MAX_SUBSCRIBERS_def)
  have "picolog_subscribe Fn_picolog_format t ?s0 =
          (PICOLOG_ERR_NONE,
           ?s0\<lparr>s_subscribers := (s_subscribers ?s0)
              [PICOLOG_MAX_SUBSCRIBERS - 1 := \<lparr>fn = Fn_picolog_format, threshold = t\<rparr>]\<rparr>)"
    by (rule picolog_subscribe_fresh) (use pos in \<open>auto simp: zero_subscriber_def\<close>)
  then show ?thesis by (simp add: picolog_init_def)
qed

lemma live_after_init:
  "live (s_subscribers (picolog_init t s)) = [\<lparr>fn = Fn_picolog_format, threshold = t\<rparr>]"
proof -
  have "0 < PICOLOG_MAX_SUBSCRIBERS" by (simp add: PICOLOG_MAX_SUBSCRIBERS_def)
  then obtain m where m: "PICOLOG_MAX_SUBSCRIBERS = Suc m" by (cases PICOLOG_MAX_SUBSCRIBERS) auto
  have "replicate (Suc m) zero_subscriber = replicate m zero_subscriber @ [zero_subscriber]"
    by (simp add: replicate_append_same)
  with m have "replicate PICOLOG_MAX_SUBSCRIBERS zero_subscriber =
          replicate (PICOLOG_MAX_SUBSCRIBERS - 1) zero_subscriber @ [zero_subscriber]"
    by simp
  then have "s_subscribers (picolog_init t s) =
          replicate (PICOLOG_MAX_SUBSCRIBERS - 1) zero_subscriber @
            [\<lparr>fn = Fn_picolog_format, threshold = t\<rparr>]"
    by (simp add: picolog_init_table list_update_append)
  then show ?thesis by (simp add: live_def zero_subscriber_def)
qed

subsection \<open>Subscribing the same callback again\<close>

lemma threshold_update_eq: "fn sub = f \<Longrightarrow> sub\<lparr>threshold := t\<rparr> = \<lparr>fn = f, threshold = t\<rparr>"
  by (cases sub) simp

text \<open>Once \<open>f\<close> is in slot \<open>k\<close> and in no slot before it, every further call rewrites slot \<open>k\<close>.\<close>

lemma subscribe_seq_registered:
  assumes "length (s_subscribers s) = PICOLOG_MAX_SUBSCRIBERS"
    and "k < PICOLOG_MAX_SUBSCRIBERS"
    and "fn (s_subscribers s ! k) = f"
    and "\<forall>j<k. fn (s_subscribers s ! j) \<noteq> f"
  shows "subscribe_seq f ts s =
           (replicate (length ts) PICOLOG_ERR_NONE,
            if ts = [] then s
            else s\<lparr>s_subscribers := (s_subscribers s)[k := \<lparr>fn = f, threshold = last ts\<rparr>]\<rparr>)"
  using assms
proof (induction ts arbitrary: s)
  case Nil
  then show ?case by simp
next
  case (Cons t ts)
  let ?s1 = "s\<lparr>s_subscribers := (s_subscribers s)[k := \<lparr>fn = f, threshold = t\<rparr>]\<rparr>"
  have step: "picolog_subscribe f t s = (PICOLOG_ERR_NONE, ?s1)"
    using picolog_subscribe_registered[OF Cons.prems(1,2,3,4), of t] Cons.prems(3)
    by (simp add: threshold_update_eq)
  have len1: "length (s_subscribers ?s1) = PICOLOG_MAX_SUBSCRIBERS"
    using Cons.prems(1) by simp
  have at1: "fn (s_subscribers ?s1 ! k) = f"
    using Cons.prems(1,2) by simp
  have first1: "\<forall>j<k. fn (s_subscribers ?s1 ! j) \<noteq> f"
    using Cons.prems(4) by simp
  from Cons.IH[OF len1 Cons.prems(2) at1 first1] step
  show ?case by simp
qed

lemma only_slot_of:
  assumes inv: "registry_inv subs" and k: "k < PICOLOG_MAX_SUBSCRIBERS"
    and nn: "fn (subs ! k) \<noteq> NULL"
  shows "filter (\<lambda>sub. fn sub = fn (subs ! k)) subs = [subs ! k]"
proof -
  from inv k nn have mem: "subs ! k \<in> set (live subs)"
    by (simp add: registry_inv_def live_def)
  from inv have "distinct (map fn (live subs))" by (simp add: registry_inv_def)
  from filter_key_distinct[OF this mem]
  have "filter (\<lambda>sub. fn sub = fn (subs ! k)) (live subs) = [subs ! k]" .
  moreover have "filter (\<lambda>sub. fn sub = fn (subs ! k)) (live subs) =
                 filter (\<lambda>sub. fn sub = fn (subs ! k)) subs"
    using nn by (auto simp: live_def intro: filter_cong)
  ultimately show ?thesis by simp
qed

text \<open>A call that can succeed leaves \<open>f\<close> with the new threshold in one slot \<open>k\<close>.\<close>

lemma picolog_subscribe_succeeds:
  assumes inv: "registry_inv (s_subscribers s)"
    and room: "f \<in> fn ` set (s_subscribers s) \<or> NULL \<in> fn ` set (s_subscribers s)"
  shows "\<exists>k<PICOLOG_MAX_SUBSCRIBERS.
           picolog_subscribe f t s =
             (PICOLOG_ERR_NONE,
              s\<lparr>s_subscribers := (s_subscribers s)[k := \<lparr>fn = f, threshold = t\<rparr>]\<rparr>) \<and>
           (\<forall>j<k. fn (s_subscribers s ! j) \<noteq> f) \<and>
           (f \<in> fn ` set (s_subscribers s) \<longrightarrow> fn (s_subscribers s ! k) = f)"
proof -
  from inv have len: "length (s_subscribers s) = PICOLOG_MAX_SUBSCRIBERS"
    by (simp add: registry_inv_def)
  from len show ?thesis
  proof (cases rule: picolog_subscribe_cases[where f = f and t = t])
    case (update k)
    then show ?thesis by (intro exI[of _ k]) (simp add: threshold_update_eq)
  next
    case (insert k)
    have "\<forall>j<k. fn (s_subscribers s ! j) \<noteq> f"
      using insert(1,3) len by (simp add: nth_fn_notin)
    with insert show ?thesis by (intro exI[of _ k]) simp
  next
    case full
    with room show ?thesis by simp
  qed
qed

lemma subscribe_seq_eq:
  assumes inv: "registry_inv (s_subscribers s)"
    and room: "f \<in> fn ` set (s_subscribers s) \<or> NULL \<in> fn ` set (s_subscribers s)"
    and ne: "ts \<noteq> []"
  shows "\<exists>k<PICOLOG_MAX_SUBSCRIBERS.
           subscribe_seq f ts s =
             (replicate (length ts) PICOLOG_ERR_NONE,
              s\<lparr>s_subscribers := (s_subscribers s)[k := \<lparr>fn = f, threshold = last ts\<rparr>]\<rparr>) \<and>
           picolog_subscribe f (hd ts) s =
             (PICOLOG_ERR_NONE,
              s\<lparr>s_subscribers := (s_subscribers s)[k := \<lparr>fn = f, threshold = hd ts\<rparr>]\<rparr>) \<and>
           (f \<in> fn ` set (s_subscribers s) \<longrightarrow> fn (s_subscribers s ! k) = f)"
proof -
  from ne obtain t ts' where ts: "ts = t # ts'" by (cases ts) auto
  from inv have len: "length (s_subscribers s) = PICOLOG_MAX_SUBSCRIBERS"
    by (simp add: registry_inv_def)
  from picolog_subscribe_succeeds[OF inv room, of t] obtain k where
    k: "k < PICOLOG_MAX_SUBSCRIBERS"
    and step: "picolog_subscribe f t s =
             (PICOLOG_ERR_NONE,
              s\<lparr>s_subscribers := (s_subscribers s)[k := \<lparr>fn = f, threshold = t\<rparr>]\<rparr>)"
    and first: "\<forall>j<k. fn (s_subscribers s ! j) \<noteq> f"
    and old: "f \<in> fn ` set (s_subscribers s) \<longrightarrow> fn (s_subscribers s ! k) = f"
    by blast
  let ?s1 = "s\<lparr>s_subscribers := (s_subscribers s)[k := \<lparr>fn = f, threshold = t\<rparr>]\<rparr>"
  have len1: "length (s_subscribers ?s1) = PICOLOG_MAX_SUBSCRIBERS" using len by simp
  have at1: "fn (s_subscribers ?s1 ! k) = f" using len k by simp
  have first1: "\<forall>j<k. fn (s_subscribers ?s1 ! j) \<noteq> f" using first by simp
  from subscribe_seq_registered[OF len1 k at1 first1, of ts'] step
  have "subscribe_seq f ts s =
             (replicate (length ts) PICOLOG_ERR_NONE,
              s\<lparr>s_subscribers := (s_subscribers s)[k := \<lparr>fn = f, threshold = last ts\<rparr>]\<rparr>)"
    by (simp add: ts)
  with k step old ts show ?thesis by (intro exI[of _ k]) simp
qed

subsection \<open>NULL as an argument\<close>

lemma no_NULL_call:
  assumes "length (s_subscribers s) = PICOLOG_MAX_SUBSCRIBERS"
  shows "NULL \<notin> fst ` set (emitted s (picolog_message severity out s))"
  by (auto simp: emitted_message[OF assms] matching_def)

lemma subscribe_NULL_free:
  assumes len: "length (s_subscribers s) = PICOLOG_MAX_SUBSCRIBERS"
    and free: "NULL \<in> fn ` set (s_subscribers s)"
  shows "fst (picolog_subscribe NULL t s) = PICOLOG_ERR_NONE \<and>
         live (s_subscribers (snd (picolog_subscribe NULL t s))) = live (s_subscribers s) \<and>
         length (s_subscribers (snd (picolog_subscribe NULL t s))) = PICOLOG_MAX_SUBSCRIBERS"
proof -
  from first_slot_of[OF free] len obtain k where
    k: "k < PICOLOG_MAX_SUBSCRIBERS" "fn (s_subscribers s ! k) = NULL"
       "\<forall>j<k. fn (s_subscribers s ! j) \<noteq> NULL"
    by auto
  have "live ((s_subscribers s)[k := (s_subscribers s ! k)\<lparr>threshold := t\<rparr>]) = live (s_subscribers s)"
    unfolding live_def using k len by (intro filter_update_dead) simp_all
  then show ?thesis
    using picolog_subscribe_registered[OF len k, of t] len by simp
qed

lemma unsubscribe_NULL_free:
  assumes len: "length (s_subscribers s) = PICOLOG_MAX_SUBSCRIBERS"
    and free: "NULL \<in> fn ` set (s_subscribers s)"
  shows "picolog_unsubscribe NULL s = (PICOLOG_ERR_NONE, s)"
proof -
  from picolog_unsubscribe_found[OF len free] obtain k where
    k: "k < PICOLOG_MAX_SUBSCRIBERS" "fn (s_subscribers s ! k) = NULL"
    and res: "picolog_unsubscribe NULL s =
             (PICOLOG_ERR_NONE,
              s\<lparr>s_subscribers := (s_subscribers s)[k := (s_subscribers s ! k)\<lparr>fn := NULL\<rparr>]\<rparr>)"
    by blast
  from k have "(s_subscribers s ! k)\<lparr>fn := NULL\<rparr> = s_subscribers s ! k"
    by (simp add: fn_update_same)
  with res show ?thesis by simp
qed

subsection \<open>Subscribing to a full registry\<close>

text \<open>
  Claim C3. If the table has its \<open>PICOLOG_MAX_SUBSCRIBERS\<close> slots, none of them is free
  (no \<^verbatim>\<open>fn\<close> is NULL) and none of them holds the callback \<open>f\<close>, then
  \<^verbatim>\<open>picolog_subscribe\<close> returns \<^verbatim>\<open>PICOLOG_ERR_SUBSCRIBERS_EXCEEDED\<close> and the state,
  so every (callback, threshold) entry, is the one it was called in.
\<close>

theorem subscribe_full_table:
  assumes "length (s_subscribers s) = PICOLOG_MAX_SUBSCRIBERS"
    and "NULL \<notin> fn ` set (s_subscribers s)"
    and "f \<notin> fn ` set (s_subscribers s)"
  shows "picolog_subscribe f t s = (PICOLOG_ERR_SUBSCRIBERS_EXCEEDED, s)"
  using assms by (rule picolog_subscribe_full)

theorem subscribe_full_table_witness:
  "length (s_subscribers example_full) = PICOLOG_MAX_SUBSCRIBERS \<and>
   NULL \<notin> fn ` set (s_subscribers example_full) \<and>
   Fn_user 6 \<notin> fn ` set (s_subscribers example_full) \<and>
   picolog_subscribe (Fn_user 6) PICOLOG_ALWAYS_LEVEL example_full =
     (PICOLOG_ERR_SUBSCRIBERS_EXCEEDED, example_full)"
  using subscribe_full_table [of example_full "Fn_user 6" PICOLOG_ALWAYS_LEVEL]
  by (simp add: example_full_table PICOLOG_MAX_SUBSCRIBERS_def)

subsection \<open>Filtering by threshold\<close>

text \<open>
  Claim C1. In a registry that satisfies the invariant, take any slot \<open>i\<close> that is live,
  with threshold \<open>T\<close>, and any severity \<open>S\<close>. Then \<^verbatim>\<open>picolog_message\<close> with
  severity \<open>S\<close> calls the callback of slot \<open>i\<close> if and only if \<open>S \<ge> T\<close>. The
  statement is for all integer values of \<open>S\<close> and \<open>T\<close>, so for every pair of the
  enumerators \<^verbatim>\<open>PICOLOG_TRACE_LEVEL\<close> to \<^verbatim>\<open>PICOLOG_ALWAYS_LEVEL\<close>.
\<close>

theorem message_invokes_iff_threshold:
  assumes "registry_inv (s_subscribers s)"
    and "i < PICOLOG_MAX_SUBSCRIBERS"
    and "fn (s_subscribers s ! i) \<noteq> NULL"
  shows "calls_to (fn (s_subscribers s ! i)) s (picolog_message severity out s) \<noteq> []
           \<longleftrightarrow> severity \<ge> threshold (s_subscribers s ! i)"
  by (simp add: calls_to_message[OF assms])

theorem message_invokes_iff_threshold_witness:
  "calls_to (Fn_user 2) example_two_sinks
     (picolog_message PICOLOG_INFO_LEVEL ''x=5'' example_two_sinks) \<noteq> [] \<and>
   calls_to (Fn_user 1) example_two_sinks
     (picolog_message PICOLOG_INFO_LEVEL ''x=5'' example_two_sinks) = []"
  using message_invokes_iff_threshold [of example_two_sinks 3 PICOLOG_INFO_LEVEL "''x=5''"]
    message_invokes_iff_threshold [of example_two_sinks 4 PICOLOG_INFO_LEVEL "''x=5''"]
  by (simp add: example_two_sinks_table registry_inv_def live_def
        PICOLOG_MAX_SUBSCRIBERS_def PICOLOG_INFO_LEVEL_def)

subsection \<open>One formatting, one call per matching subscriber\<close>

text \<open>
  Claim C6. \<^verbatim>\<open>picolog_message\<close> writes the buffer with one \<^verbatim>\<open>vsnprintf\<close> of the
  format and arguments, leaves the table as it is, and then makes its calls before it
  returns: one for each slot that is live and whose threshold is at most the severity, in
  slot order, each with the severity and the text of that one buffer. Under the invariant
  each such subscriber is therefore called exactly once.
\<close>

theorem message_formats_once:
  assumes "registry_inv (s_subscribers s)"
  shows "s_message (picolog_message severity out s) =
           vsnprintf (s_message s) PICOLOG_MAX_MESSAGE_LENGTH out \<and>
         s_subscribers (picolog_message severity out s) = s_subscribers s \<and>
         invoked (picolog_message severity out s) =
           invoked s @
             map (\<lambda>sub. (fn sub, severity, c_str (s_message (picolog_message severity out s))))
               (matching severity (s_subscribers s)) \<and>
         (\<forall>i < PICOLOG_MAX_SUBSCRIBERS.
            fn (s_subscribers s ! i) \<noteq> NULL \<and> severity \<ge> threshold (s_subscribers s ! i) \<longrightarrow>
            calls_to (fn (s_subscribers s ! i)) s (picolog_message severity out s) =
              [(fn (s_subscribers s ! i), severity,
                c_str (s_message (picolog_message severity out s)))])"
proof -
  from assms have len: "length (s_subscribers s) = PICOLOG_MAX_SUBSCRIBERS"
    by (simp add: registry_inv_def)
  have buf: "s_message (picolog_message severity out s) =
           vsnprintf (s_message s) PICOLOG_MAX_MESSAGE_LENGTH out"
    by (simp add: picolog_message_eq[OF len])
  have tab: "s_subscribers (picolog_message severity out s) = s_subscribers s"
    by (simp add: picolog_message_eq[OF len])
  have inv: "invoked (picolog_message severity out s) =
           invoked s @
             map (\<lambda>sub. (fn sub, severity, c_str (s_message (picolog_message severity out s))))
               (matching severity (s_subscribers s))"
    by (simp add: picolog_message_eq[OF len])
  have once: "\<forall>i < PICOLOG_MAX_SUBSCRIBERS.
            fn (s_subscribers s ! i) \<noteq> NULL \<and> severity \<ge> threshold (s_subscribers s ! i) \<longrightarrow>
            calls_to (fn (s_subscribers s ! i)) s (picolog_message severity out s) =
              [(fn (s_subscribers s ! i), severity,
                c_str (s_message (picolog_message severity out s)))]"
    using calls_to_message[OF assms] buf by simp
  from buf tab inv once show ?thesis by blast
qed

theorem message_formats_once_witness:
  "invoked (picolog_message PICOLOG_CRITICAL_LEVEL ''boom'' example_two_sinks) =
     [(Fn_user 2, PICOLOG_CRITICAL_LEVEL, ''boom''),
      (Fn_user 1, PICOLOG_CRITICAL_LEVEL, ''boom''),
      (Fn_picolog_format, PICOLOG_CRITICAL_LEVEL, ''boom'')]"
  using message_formats_once [of example_two_sinks PICOLOG_CRITICAL_LEVEL "''boom''"]
  by (simp add: example_two_sinks_table example_two_sinks_rest registry_inv_def live_def
        matching_def vsnprintf_def c_str_def NUL_def
        PICOLOG_MAX_SUBSCRIBERS_def PICOLOG_MAX_MESSAGE_LENGTH_def PICOLOG_CRITICAL_LEVEL_def)

subsection \<open>The message never outgrows the buffer\<close>

text \<open>
  Claim C7. Whatever the format and arguments expand to, after \<^verbatim>\<open>picolog_message\<close>
  the buffer still has its \<open>PICOLOG_MAX_MESSAGE_LENGTH\<close> bytes (nothing is stored beyond
  it), it holds a NUL at an index below that length, and the C string in it, which is what
  every subscriber called receives, is the C string of the first
  \<open>PICOLOG_MAX_MESSAGE_LENGTH - 1\<close> characters of the expansion, hence shorter than the
  buffer. A long expansion is cut without any error: the same subscribers are called as
  for a short one.
\<close>

theorem message_bounded:
  assumes "length (s_subscribers s) = PICOLOG_MAX_SUBSCRIBERS"
    and "length (s_message s) = PICOLOG_MAX_MESSAGE_LENGTH"
  shows "length (s_message (picolog_message severity out s)) = PICOLOG_MAX_MESSAGE_LENGTH \<and>
         s_message (picolog_message severity out s) !
           min (length out) (PICOLOG_MAX_MESSAGE_LENGTH - 1) = NUL \<and>
         c_str (s_message (picolog_message severity out s)) =
           c_str (take (PICOLOG_MAX_MESSAGE_LENGTH - 1) out) \<and>
         length (c_str (s_message (picolog_message severity out s))) < PICOLOG_MAX_MESSAGE_LENGTH \<and>
         map fst (emitted s (picolog_message severity out s)) =
           map fn (matching severity (s_subscribers s)) \<and>
         (\<forall>c \<in> set (emitted s (picolog_message severity out s)).
            snd (snd c) = c_str (take (PICOLOG_MAX_MESSAGE_LENGTH - 1) out) \<and>
            length (snd (snd c)) < PICOLOG_MAX_MESSAGE_LENGTH)"
proof -
  have pos: "0 < PICOLOG_MAX_MESSAGE_LENGTH" by (simp add: PICOLOG_MAX_MESSAGE_LENGTH_def)
  have buf: "s_message (picolog_message severity out s) =
           vsnprintf (s_message s) PICOLOG_MAX_MESSAGE_LENGTH out"
    by (simp add: picolog_message_eq[OF assms(1)])
  have bound: "length (c_str (take (PICOLOG_MAX_MESSAGE_LENGTH - 1) out)) < PICOLOG_MAX_MESSAGE_LENGTH"
    using length_c_str_take[of "PICOLOG_MAX_MESSAGE_LENGTH - 1" out] pos by simp
  have a: "length (s_message (picolog_message severity out s)) = PICOLOG_MAX_MESSAGE_LENGTH"
    using assms(2) pos by (simp add: buf length_vsnprintf)
  have b: "s_message (picolog_message severity out s) !
           min (length out) (PICOLOG_MAX_MESSAGE_LENGTH - 1) = NUL"
    using vsnprintf_NUL[OF pos] by (simp add: buf)
  have c: "c_str (s_message (picolog_message severity out s)) =
           c_str (take (PICOLOG_MAX_MESSAGE_LENGTH - 1) out)"
    using c_str_vsnprintf[OF pos] by (simp add: buf)
  have d: "map fst (emitted s (picolog_message severity out s)) =
           map fn (matching severity (s_subscribers s))"
    by (simp add: emitted_message[OF assms(1)] comp_def)
  have e: "\<forall>c \<in> set (emitted s (picolog_message severity out s)).
            snd (snd c) = c_str (take (PICOLOG_MAX_MESSAGE_LENGTH - 1) out) \<and>
            length (snd (snd c)) < PICOLOG_MAX_MESSAGE_LENGTH"
    using bound c_str_vsnprintf[OF pos] by (auto simp: emitted_message[OF assms(1)])
  from a b c d e bound show ?thesis by simp
qed

theorem message_bounded_witness:
  "length (s_message (picolog_message PICOLOG_ERROR_LEVEL (replicate 200 CHR ''a'') example_init)) =
     PICOLOG_MAX_MESSAGE_LENGTH \<and>
   c_str (s_message (picolog_message PICOLOG_ERROR_LEVEL (replicate 200 CHR ''a'') example_init)) =
     replicate 119 CHR ''a'' \<and>
   map fst (emitted example_init
     (picolog_message PICOLOG_ERROR_LEVEL (replicate 200 CHR ''a'') example_init)) =
     [Fn_picolog_format]"
  using message_bounded [of example_init PICOLOG_ERROR_LEVEL "replicate 200 CHR ''a''"]
  by (simp add: example_init_table example_init_rest matching_def c_str_def NUL_def
        PICOLOG_MAX_SUBSCRIBERS_def PICOLOG_MAX_MESSAGE_LENGTH_def PICOLOG_ERROR_LEVEL_def)

subsection \<open>Initialisation\<close>

text \<open>
  Claim C8. For every threshold \<open>t\<close> and whatever the state before,
  \<^verbatim>\<open>picolog_init\<close> leaves the table that \<^verbatim>\<open>memset\<close> empties (no live slot) with
  \<^verbatim>\<open>picolog_format\<close> subscribed at \<open>t\<close>, in the last slot: that is the only live
  entry. A message sent right after the initialisation therefore calls
  \<^verbatim>\<open>picolog_format\<close> alone, and only when its severity is at least \<open>t\<close>; no other
  callback \<open>f\<close>, subscribed before or not, is called.
\<close>

theorem init_resets_registry:
  "s_subscribers (picolog_init t s) =
     (replicate PICOLOG_MAX_SUBSCRIBERS zero_subscriber)
       [PICOLOG_MAX_SUBSCRIBERS - 1 := \<lparr>fn = Fn_picolog_format, threshold = t\<rparr>] \<and>
   live (replicate PICOLOG_MAX_SUBSCRIBERS zero_subscriber) = [] \<and>
   live (s_subscribers (picolog_init t s)) = [\<lparr>fn = Fn_picolog_format, threshold = t\<rparr>] \<and>
   map fst (emitted (picolog_init t s) (picolog_message severity out (picolog_init t s))) =
     (if severity \<ge> t then [Fn_picolog_format] else []) \<and>
   (f \<noteq> Fn_picolog_format \<longrightarrow>
      calls_to f (picolog_init t s) (picolog_message severity out (picolog_init t s)) = [])"
proof -
  have len: "length (s_subscribers (picolog_init t s)) = PICOLOG_MAX_SUBSCRIBERS"
    by (simp add: picolog_init_table)
  have "matching severity (s_subscribers (picolog_init t s)) =
          filter (\<lambda>sub. severity \<ge> threshold sub) (live (s_subscribers (picolog_init t s)))"
    by (simp add: matching_def live_def)
  then have m: "matching severity (s_subscribers (picolog_init t s)) =
          (if severity \<ge> t then [\<lparr>fn = Fn_picolog_format, threshold = t\<rparr>] else [])"
    by (simp add: live_after_init)
  have e: "map fst (emitted (picolog_init t s) (picolog_message severity out (picolog_init t s))) =
     (if severity \<ge> t then [Fn_picolog_format] else [])"
    by (simp add: emitted_message[OF len] m)
  have c: "calls_to f (picolog_init t s) (picolog_message severity out (picolog_init t s)) = []"
    if "f \<noteq> Fn_picolog_format"
    using that by (simp add: calls_to_def emitted_message[OF len] m)
  have z: "live (replicate PICOLOG_MAX_SUBSCRIBERS zero_subscriber) = []"
    by (simp add: live_def zero_subscriber_def)
  from picolog_init_table live_after_init e c z show ?thesis by simp
qed

theorem init_resets_registry_witness:
  "calls_to (Fn_user 1) example_two_sinks
     (picolog_message PICOLOG_ALWAYS_LEVEL ''late'' example_two_sinks) \<noteq> [] \<and>
   calls_to (Fn_user 1) (picolog_init PICOLOG_TRACE_LEVEL example_two_sinks)
     (picolog_message PICOLOG_ALWAYS_LEVEL ''late''
        (picolog_init PICOLOG_TRACE_LEVEL example_two_sinks)) = []"
  using init_resets_registry
    [of PICOLOG_TRACE_LEVEL example_two_sinks PICOLOG_ALWAYS_LEVEL "''late''" "Fn_user 1"]
    calls_to_message [of example_two_sinks 4 PICOLOG_ALWAYS_LEVEL "''late''"]
  by (simp add: example_two_sinks_table registry_inv_def live_def
        PICOLOG_MAX_SUBSCRIBERS_def PICOLOG_ALWAYS_LEVEL_def)

subsection \<open>The registry invariant\<close>

text \<open>
  Claim C9. The registry of the program's start satisfies the invariant, and every
  sequence of \<^verbatim>\<open>picolog_init\<close>, \<^verbatim>\<open>picolog_subscribe\<close>, \<^verbatim>\<open>picolog_unsubscribe\<close>
  (and \<^verbatim>\<open>picolog_message\<close>) calls, run from a state that satisfies it, ends in one
  that does: the table has its \<open>PICOLOG_MAX_SUBSCRIBERS\<close> slots, so at most that many are
  live; no two live slots hold the same callback; and a live slot never holds NULL, the
  mark of a free one.
\<close>

theorem registry_invariant:
  "registry_inv (s_subscribers picolog_start) \<and>
   (registry_inv (s_subscribers s) \<longrightarrow>
      registry_inv (s_subscribers (run_ops xs s)) \<and>
      length (live (s_subscribers (run_ops xs s))) \<le> PICOLOG_MAX_SUBSCRIBERS \<and>
      distinct (map fn (live (s_subscribers (run_ops xs s)))) \<and>
      NULL \<notin> fn ` set (live (s_subscribers (run_ops xs s))))"
proof -
  have b: "registry_inv (s_subscribers (run_ops xs s)) \<and>
      length (live (s_subscribers (run_ops xs s))) \<le> PICOLOG_MAX_SUBSCRIBERS \<and>
      distinct (map fn (live (s_subscribers (run_ops xs s)))) \<and>
      NULL \<notin> fn ` set (live (s_subscribers (run_ops xs s)))"
    if "registry_inv (s_subscribers s)"
  proof -
    from registry_inv_run_ops[OF that, of xs]
    have inv: "registry_inv (s_subscribers (run_ops xs s))" .
    have "length (live (s_subscribers (run_ops xs s))) \<le> length (s_subscribers (run_ops xs s))"
      by (simp add: live_def)
    with inv show ?thesis by (auto simp: registry_inv_def live_def)
  qed
  with registry_inv_start show ?thesis by blast
qed

theorem registry_invariant_witness:
  "registry_inv (s_subscribers picolog_start) \<and>
   registry_inv (s_subscribers example_full) \<and>
   length (live (s_subscribers example_full)) \<le> PICOLOG_MAX_SUBSCRIBERS \<and>
   distinct (map fn (live (s_subscribers example_full)))"
  using registry_invariant
    [of picolog_start
        "[Init PICOLOG_INFO_LEVEL,
          Subscribe (Fn_user 1) PICOLOG_TRACE_LEVEL,
          Subscribe (Fn_user 2) PICOLOG_DEBUG_LEVEL,
          Subscribe (Fn_user 3) PICOLOG_WARNING_LEVEL,
          Subscribe (Fn_user 4) PICOLOG_ERROR_LEVEL,
          Subscribe (Fn_user 5) PICOLOG_CRITICAL_LEVEL]"]
  by (simp only: example_full_def)

subsection \<open>Unsubscribing\<close>

text \<open>
  Claim C5. For every \<open>f\<close>: if some slot holds \<open>f\<close> in its \<^verbatim>\<open>fn\<close>,
  \<^verbatim>\<open>picolog_unsubscribe\<close> returns \<^verbatim>\<open>PICOLOG_ERR_NONE\<close> and sets the \<^verbatim>\<open>fn\<close> of the
  first such slot to NULL, the mark of a free slot, changing nothing else; if no slot
  holds \<open>f\<close>, it returns \<^verbatim>\<open>PICOLOG_ERR_NOT_SUBSCRIBED\<close> and the state is the one it was
  called in. Under the invariant a callback \<open>f\<close> that is not NULL is then in no slot.
\<close>

theorem unsubscribe_clears_or_fails:
  assumes "length (s_subscribers s) = PICOLOG_MAX_SUBSCRIBERS"
  shows "(f \<in> fn ` set (s_subscribers s) \<longrightarrow>
            (\<exists>k<PICOLOG_MAX_SUBSCRIBERS. fn (s_subscribers s ! k) = f \<and>
               (\<forall>j<k. fn (s_subscribers s ! j) \<noteq> f) \<and>
               picolog_unsubscribe f s =
                 (PICOLOG_ERR_NONE,
                  s\<lparr>s_subscribers := (s_subscribers s)[k := (s_subscribers s ! k)\<lparr>fn := NULL\<rparr>]\<rparr>))) \<and>
         (f \<notin> fn ` set (s_subscribers s) \<longrightarrow>
            picolog_unsubscribe f s = (PICOLOG_ERR_NOT_SUBSCRIBED, s)) \<and>
         (registry_inv (s_subscribers s) \<and> f \<noteq> NULL \<longrightarrow>
            f \<notin> fn ` set (s_subscribers (snd (picolog_unsubscribe f s))))"
  using picolog_unsubscribe_found[OF assms, of f] picolog_unsubscribe_absent[OF assms, of f]
    unsubscribed_is_gone[of s f]
  by blast

theorem unsubscribe_clears_or_fails_witness:
  "picolog_unsubscribe (Fn_user 1) example_two_sinks =
     (PICOLOG_ERR_NONE,
      example_two_sinks\<lparr>s_subscribers :=
        (s_subscribers example_two_sinks)[4 := \<lparr>fn = NULL, threshold = PICOLOG_WARNING_LEVEL\<rparr>]\<rparr>) \<and>
   picolog_unsubscribe (Fn_user 7) example_two_sinks =
     (PICOLOG_ERR_NOT_SUBSCRIBED, example_two_sinks)"
proof -
  have len: "length (s_subscribers example_two_sinks) = PICOLOG_MAX_SUBSCRIBERS"
    by (simp add: example_two_sinks_table PICOLOG_MAX_SUBSCRIBERS_def)
  from unsubscribe_clears_or_fails[OF len, of "Fn_user 1"]
  obtain k where k: "fn (s_subscribers example_two_sinks ! k) = Fn_user 1"
    "k < PICOLOG_MAX_SUBSCRIBERS"
    and res: "picolog_unsubscribe (Fn_user 1) example_two_sinks =
      (PICOLOG_ERR_NONE,
       example_two_sinks\<lparr>s_subscribers :=
         (s_subscribers example_two_sinks)[k := (s_subscribers example_two_sinks ! k)\<lparr>fn := NULL\<rparr>]\<rparr>)"
    by (auto simp: example_two_sinks_table)
  from k have "k = 4"
    by (auto simp: example_two_sinks_table PICOLOG_MAX_SUBSCRIBERS_def less_Suc_eq numeral_eq_Suc)
  with res have a: "picolog_unsubscribe (Fn_user 1) example_two_sinks =
     (PICOLOG_ERR_NONE,
      example_two_sinks\<lparr>s_subscribers :=
        (s_subscribers example_two_sinks)[4 := \<lparr>fn = NULL, threshold = PICOLOG_WARNING_LEVEL\<rparr>]\<rparr>)"
    by (simp add: example_two_sinks_table PICOLOG_WARNING_LEVEL_def)
  from unsubscribe_clears_or_fails[OF len, of "Fn_user 7"]
  have b: "picolog_unsubscribe (Fn_user 7) example_two_sinks =
     (PICOLOG_ERR_NOT_SUBSCRIBED, example_two_sinks)"
    by (simp add: example_two_sinks_table)
  from a b show ?thesis by simp
qed

subsection \<open>Which free slot a new subscriber takes\<close>

text \<open>
  Claim C4, as the specification states it, has a new callback take the first free slot of
  the scan. The loop of \<^verbatim>\<open>picolog_subscribe\<close> scans the indices upwards and overwrites
  \<^verbatim>\<open>available_slot\<close> at every free slot it passes, so the slot it fills is the last
  free one. After \<^verbatim>\<open>picolog_init\<close> at program start the first free slot is slot 0;
  a new callback is stored in slot 4 and slot 0 stays free.
\<close>

theorem subscribe_first_free_counterexample:
  "Fn_user 1 \<notin> fn ` set (s_subscribers example_init) \<and>
   first_free (s_subscribers example_init) = Some 0 \<and>
   fst (picolog_subscribe (Fn_user 1) PICOLOG_ERROR_LEVEL example_init) = PICOLOG_ERR_NONE \<and>
   s_subscribers (snd (picolog_subscribe (Fn_user 1) PICOLOG_ERROR_LEVEL example_init)) ! 0 =
     \<lparr>fn = NULL, threshold = 0\<rparr> \<and>
   s_subscribers (snd (picolog_subscribe (Fn_user 1) PICOLOG_ERROR_LEVEL example_init)) ! 4 =
     \<lparr>fn = Fn_user 1, threshold = PICOLOG_ERROR_LEVEL\<rparr>"
  by code_simp

text \<open>
  Claim C4, amended. If no slot holds \<open>f\<close> (so \<open>f\<close> is not NULL when a slot is free)
  and \<open>k\<close> is the last free slot, that is, slot \<open>k\<close> is free and no slot after it is,
  then \<^verbatim>\<open>picolog_subscribe\<close> returns \<^verbatim>\<open>PICOLOG_ERR_NONE\<close> and stores
  \<open>(f, t)\<close> in slot \<open>k\<close>, changing nothing else.
\<close>

theorem subscribe_takes_last_free:
  assumes "length (s_subscribers s) = PICOLOG_MAX_SUBSCRIBERS"
    and "f \<notin> fn ` set (s_subscribers s)"
    and "k < PICOLOG_MAX_SUBSCRIBERS"
    and "fn (s_subscribers s ! k) = NULL"
    and "NULL \<notin> fn ` set (drop (Suc k) (s_subscribers s))"
  shows "picolog_subscribe f t s =
           (PICOLOG_ERR_NONE,
            s\<lparr>s_subscribers := (s_subscribers s)[k := \<lparr>fn = f, threshold = t\<rparr>]\<rparr>)"
  using assms by (rule picolog_subscribe_fresh)

theorem subscribe_takes_last_free_witness:
  "picolog_subscribe (Fn_user 1) PICOLOG_ERROR_LEVEL example_init =
     (PICOLOG_ERR_NONE,
      example_init\<lparr>s_subscribers :=
        (s_subscribers example_init)[4 := \<lparr>fn = Fn_user 1, threshold = PICOLOG_ERROR_LEVEL\<rparr>]\<rparr>)"
  using subscribe_takes_last_free [of example_init "Fn_user 1" 4 PICOLOG_ERROR_LEVEL]
  by (simp add: example_init_table PICOLOG_MAX_SUBSCRIBERS_def)

subsection \<open>NULL passed as a callback\<close>

text \<open>
  Claim C10. NULL marks a free slot, so a free slot matches NULL in both loops. When some
  slot is free, \<^verbatim>\<open>picolog_subscribe(NULL, t)\<close> returns \<^verbatim>\<open>PICOLOG_ERR_NONE\<close>, the
  live slots are the ones they were, no later \<^verbatim>\<open>picolog_message\<close> calls NULL, and
  \<^verbatim>\<open>picolog_unsubscribe(NULL)\<close> returns \<^verbatim>\<open>PICOLOG_ERR_NONE\<close> with the state
  unchanged. When no slot is free, the two return
  \<^verbatim>\<open>PICOLOG_ERR_SUBSCRIBERS_EXCEEDED\<close> and \<^verbatim>\<open>PICOLOG_ERR_NOT_SUBSCRIBED\<close>, the
  state unchanged.
\<close>

theorem null_callback:
  assumes "length (s_subscribers s) = PICOLOG_MAX_SUBSCRIBERS"
  shows "(NULL \<in> fn ` set (s_subscribers s) \<longrightarrow>
            fst (picolog_subscribe NULL t s) = PICOLOG_ERR_NONE \<and>
            live (s_subscribers (snd (picolog_subscribe NULL t s))) = live (s_subscribers s) \<and>
            NULL \<notin> fst ` set (emitted (snd (picolog_subscribe NULL t s))
                       (picolog_message severity out (snd (picolog_subscribe NULL t s)))) \<and>
            picolog_unsubscribe NULL s = (PICOLOG_ERR_NONE, s)) \<and>
         (NULL \<notin> fn ` set (s_subscribers s) \<longrightarrow>
            picolog_subscribe NULL t s = (PICOLOG_ERR_SUBSCRIBERS_EXCEEDED, s) \<and>
            picolog_unsubscribe NULL s = (PICOLOG_ERR_NOT_SUBSCRIBED, s))"
proof (cases "NULL \<in> fn ` set (s_subscribers s)")
  case True
  from subscribe_NULL_free[OF assms True, of t]
  have sub: "fst (picolog_subscribe NULL t s) = PICOLOG_ERR_NONE"
    "live (s_subscribers (snd (picolog_subscribe NULL t s))) = live (s_subscribers s)"
    "length (s_subscribers (snd (picolog_subscribe NULL t s))) = PICOLOG_MAX_SUBSCRIBERS"
    by simp_all
  from no_NULL_call[OF sub(3)] sub(1,2) unsubscribe_NULL_free[OF assms True] True
  show ?thesis by simp
next
  case False
  from picolog_subscribe_full[OF assms False False] picolog_unsubscribe_absent[OF assms False] False
  show ?thesis by simp
qed

theorem null_callback_witness:
  "fst (picolog_subscribe NULL PICOLOG_TRACE_LEVEL example_init) = PICOLOG_ERR_NONE \<and>
   live (s_subscribers (snd (picolog_subscribe NULL PICOLOG_TRACE_LEVEL example_init))) =
     live (s_subscribers example_init) \<and>
   picolog_unsubscribe NULL example_init = (PICOLOG_ERR_NONE, example_init) \<and>
   picolog_subscribe NULL PICOLOG_TRACE_LEVEL example_full =
     (PICOLOG_ERR_SUBSCRIBERS_EXCEEDED, example_full) \<and>
   picolog_unsubscribe NULL example_full = (PICOLOG_ERR_NOT_SUBSCRIBED, example_full)"
  using null_callback [of example_init PICOLOG_TRACE_LEVEL PICOLOG_TRACE_LEVEL "''''"]
    null_callback [of example_full PICOLOG_TRACE_LEVEL PICOLOG_TRACE_LEVEL "''''"]
  by (simp add: example_init_table example_full_table PICOLOG_MAX_SUBSCRIBERS_def)

subsection \<open>Subscribing one callback several times\<close>

text \<open>
  Claim C2, as the specification states it, speaks of every sequence of
  \<^verbatim>\<open>picolog_subscribe(f, t)\<close> calls with one \<open>f\<close>. It fails when the table is full and
  \<open>f\<close> is not in it: every call returns \<^verbatim>\<open>PICOLOG_ERR_SUBSCRIBERS_EXCEEDED\<close> and the
  registry has no entry for \<open>f\<close>. With NULL for \<open>f\<close> the calls return
  \<^verbatim>\<open>PICOLOG_ERR_NONE\<close>, and no live entry comes of them.
\<close>

theorem resubscribe_counterexample:
  "NULL \<notin> fn ` set (s_subscribers example_full) \<and>
   Fn_user 6 \<notin> fn ` set (s_subscribers example_full) \<and>
   subscribe_seq (Fn_user 6) [PICOLOG_DEBUG_LEVEL, PICOLOG_ERROR_LEVEL] example_full =
     ([PICOLOG_ERR_SUBSCRIBERS_EXCEEDED, PICOLOG_ERR_SUBSCRIBERS_EXCEEDED], example_full) \<and>
   fst (subscribe_seq NULL [PICOLOG_DEBUG_LEVEL, PICOLOG_ERROR_LEVEL] example_init) =
     [PICOLOG_ERR_NONE, PICOLOG_ERR_NONE] \<and>
   live (s_subscribers (snd (subscribe_seq NULL [PICOLOG_DEBUG_LEVEL, PICOLOG_ERROR_LEVEL]
     example_init))) = [\<lparr>fn = Fn_picolog_format, threshold = PICOLOG_INFO_LEVEL\<rparr>]"
  by code_simp

text \<open>
  Claim C2, amended. In a registry that satisfies the invariant, let \<open>f\<close> be a callback
  other than NULL that is in the table already or for which a slot is free. Then for every
  sequence of one or more \<^verbatim>\<open>picolog_subscribe(f, t)\<close> calls: each call returns
  \<^verbatim>\<open>PICOLOG_ERR_NONE\<close>; afterwards exactly one slot holds \<open>f\<close>, with the \<open>t\<close> of the
  last call as its threshold; and every slot holds the callback it held after the first
  call, so the later calls take no slot. If \<open>f\<close> was in the table before, every slot
  holds the callback it held before the sequence.
\<close>

theorem resubscribe_updates_in_place:
  assumes inv: "registry_inv (s_subscribers s)"
    and nn: "f \<noteq> NULL"
    and room: "f \<in> fn ` set (s_subscribers s) \<or> NULL \<in> fn ` set (s_subscribers s)"
    and ne: "ts \<noteq> []"
  shows "fst (subscribe_seq f ts s) = replicate (length ts) PICOLOG_ERR_NONE \<and>
         filter (\<lambda>sub. fn sub = f) (s_subscribers (snd (subscribe_seq f ts s))) =
           [\<lparr>fn = f, threshold = last ts\<rparr>] \<and>
         map fn (s_subscribers (snd (subscribe_seq f ts s))) =
           map fn (s_subscribers (snd (picolog_subscribe f (hd ts) s))) \<and>
         (f \<in> fn ` set (s_subscribers s) \<longrightarrow>
            map fn (s_subscribers (snd (subscribe_seq f ts s))) = map fn (s_subscribers s))"
proof -
  from inv have len: "length (s_subscribers s) = PICOLOG_MAX_SUBSCRIBERS"
    by (simp add: registry_inv_def)
  from subscribe_seq_eq[OF inv room ne] obtain k where
    k: "k < PICOLOG_MAX_SUBSCRIBERS"
    and seq: "subscribe_seq f ts s =
             (replicate (length ts) PICOLOG_ERR_NONE,
              s\<lparr>s_subscribers := (s_subscribers s)[k := \<lparr>fn = f, threshold = last ts\<rparr>]\<rparr>)"
    and step: "picolog_subscribe f (hd ts) s =
             (PICOLOG_ERR_NONE,
              s\<lparr>s_subscribers := (s_subscribers s)[k := \<lparr>fn = f, threshold = hd ts\<rparr>]\<rparr>)"
    and old: "f \<in> fn ` set (s_subscribers s) \<longrightarrow> fn (s_subscribers s ! k) = f"
    by blast
  let ?final = "(s_subscribers s)[k := \<lparr>fn = f, threshold = last ts\<rparr>]"
  let ?one = "(s_subscribers s)[k := \<lparr>fn = f, threshold = hd ts\<rparr>]"
  have same: "map fn ?final = map fn ?one" by (simp add: map_update)
  have "registry_inv (s_subscribers (snd (picolog_subscribe f (hd ts) s)))"
    using inv by (rule registry_inv_subscribe)
  then have "registry_inv ?one" by (simp add: step)
  then have invf: "registry_inv ?final" using same by (simp add: registry_inv_alt)
  have atk: "?final ! k = \<lparr>fn = f, threshold = last ts\<rparr>" using k len by simp
  from only_slot_of[OF invf k] atk nn
  have one: "filter (\<lambda>sub. fn sub = f) ?final = [\<lparr>fn = f, threshold = last ts\<rparr>]" by simp
  have keep: "map fn ?final = map fn (s_subscribers s)" if "f \<in> fn ` set (s_subscribers s)"
  proof -
    from that old have "fn (s_subscribers s ! k) = f" by simp
    then have "(map fn (s_subscribers s))[k := f] = map fn (s_subscribers s)"
      using k len by (simp add: list_update_same_conv)
    then show ?thesis by (simp add: map_update)
  qed
  from seq step one same keep show ?thesis by simp
qed

theorem resubscribe_updates_in_place_witness:
  "fst (subscribe_seq (Fn_user 1)
          [PICOLOG_DEBUG_LEVEL, PICOLOG_ERROR_LEVEL, PICOLOG_INFO_LEVEL] example_init) =
     [PICOLOG_ERR_NONE, PICOLOG_ERR_NONE, PICOLOG_ERR_NONE] \<and>
   filter (\<lambda>sub. fn sub = Fn_user 1)
     (s_subscribers (snd (subscribe_seq (Fn_user 1)
          [PICOLOG_DEBUG_LEVEL, PICOLOG_ERROR_LEVEL, PICOLOG_INFO_LEVEL] example_init))) =
     [\<lparr>fn = Fn_user 1, threshold = PICOLOG_INFO_LEVEL\<rparr>]"
  using resubscribe_updates_in_place
    [of example_init "Fn_user 1" "[PICOLOG_DEBUG_LEVEL, PICOLOG_ERROR_LEVEL, PICOLOG_INFO_LEVEL]"]
  by (simp add: example_init_table registry_inv_def live_def PICOLOG_MAX_SUBSCRIBERS_def)

end
